theory Spec2Isabelle
  imports Complex_Main "HOL-Library.AList" "HOL-Library.Sublist"
begin

chapter \<open>Layr: plan generation, validation, retry and fallback\<close>

text \<open>
  A shallow embedding of the plan-generation core of the repository: the planner
  (\<^verbatim>\<open>planner.ts\<close>: \<^verbatim>\<open>hasUniqueIds\<close>, \<^verbatim>\<open>hasCycles\<close>, \<^verbatim>\<open>fallbackHeuristicPlan\<close>,
  \<^verbatim>\<open>generatePlan\<close>, \<^verbatim>\<open>refinePlan\<close>), the OpenAI client (\<^verbatim>\<open>llmClient.ts\<close>), the Mistral
  client (\<^verbatim>\<open>llm/mistral.ts\<close>) and the session orchestrator (\<^verbatim>\<open>LayerOrchestrator\<close>).

  Everything the code takes from outside is a parameter of the model: the stored API
  key, the outcome of each HTTP call, the runtime's \<^verbatim>\<open>JSON.parse\<close>, the clock and the
  random source. A \<^verbatim>\<open>throw\<close> is the \<open>Inl\<close> branch of a sum, a normal return the \<open>Inr\<close>
  branch.
\<close>

section \<open>Strings and errors\<close>

text \<open>
  A JavaScript string is a sequence of UTF-16 code units; \<open>lit\<close> embeds an ASCII
  literal of the source.
\<close>

type_synonym jsstring = "nat list"

definition lit :: "string \<Rightarrow> jsstring" where
  "lit s = map of_char s"

text \<open>
  Thrown values. \<open>Error m\<close> is \<^verbatim>\<open>new Error(m)\<close>; \<open>AxiosError st\<close> is a failure of
  \<^verbatim>\<open>axios.post\<close> with \<^verbatim>\<open>error.response?.status\<close> equal to \<open>st\<close>; \<open>APIError st\<close> is a
  failure of the OpenAI SDK with \<^verbatim>\<open>err.status\<close> equal to \<open>st\<close>; \<open>TypeError\<close> and
  \<open>SyntaxError\<close> are raised by the runtime itself (their message text is the
  engine's); \<open>Prefixed p e\<close> is \<^verbatim>\<open>new Error(p + e.message)\<close>.
\<close>

datatype error =
    Error jsstring
  | AxiosError "nat option"
  | APIError "nat option"
  | TypeError
  | SyntaxError
  | Prefixed jsstring error

section \<open>The planner\<close>

subsection \<open>Plans and steps\<close>

text \<open>
  \<^verbatim>\<open>types.ts\<close>. The field \<^verbatim>\<open>id\<close> of a step is \<open>step_id\<close> here; an optional field is an
  \<open>option\<close>.
\<close>

datatype Complexity = Low | Medium | High

record PlanStep =
  step_id :: int
  step_title :: jsstring
  step_description :: jsstring
  dependencies :: "int list"
  step_templates :: "jsstring list option"
  commands :: "jsstring list option"
  complexity :: "Complexity option"
  estimatedTimeMin :: "int option"

record Plan =
  plan_id :: jsstring
  plan_title :: jsstring
  goal :: jsstring
  steps :: "PlanStep list"

subsection \<open>Validation: unique identifiers and cycles\<close>

text \<open>\<^verbatim>\<open>ids.length === new Set(ids).size\<close>\<close>

definition hasUniqueIds :: "PlanStep list \<Rightarrow> bool" where
  "hasUniqueIds ss = (let ids = map step_id ss in length ids = card (set ids))"

text \<open>
  \<^verbatim>\<open>graph\<close> is a plain object filled by \<^verbatim>\<open>graph[s.id] = s.dependencies || []\<close>: a later
  step with the same identifier overwrites the entry of an earlier one. (An array is
  truthy, so \<^verbatim>\<open>|| []\<close> changes nothing for a step of the declared type.)
\<close>

type_synonym graph = "(int \<times> int list) list"

definition build_graph :: "PlanStep list \<Rightarrow> graph" where
  "build_graph ss = fold (\<lambda>s g. AList.update (step_id s) (dependencies s) g) ss []"

text \<open>
  The depth-first search. Its state is the pair of the two sets \<^verbatim>\<open>visited\<close> and
  \<^verbatim>\<open>recStack\<close> that the closure \<^verbatim>\<open>dfs\<close> mutates. \<open>dfs_loop\<close> is the \<^verbatim>\<open>for (const dep
  of graph[id])\<close> loop; iterating \<^verbatim>\<open>graph[id]\<close> when \<^verbatim>\<open>id\<close> is not a key of the graph
  iterates \<^verbatim>\<open>undefined\<close>, which raises a \<^verbatim>\<open>TypeError\<close>. A \<^verbatim>\<open>return true\<close> leaves the
  stack as it is; a \<^verbatim>\<open>return false\<close> passes through \<^verbatim>\<open>recStack.delete(id)\<close>.
\<close>

type_synonym dfs_state = "int set \<times> int set"

function dfs :: "graph \<Rightarrow> int \<Rightarrow> dfs_state \<Rightarrow> error + (bool \<times> dfs_state)"
  and dfs_loop :: "graph \<Rightarrow> int list \<Rightarrow> dfs_state \<Rightarrow> error + (bool \<times> dfs_state)"
where
  "dfs g i (visited, recStack) =
     (if i \<notin> visited then
        (case map_of g i of
           None \<Rightarrow> Inl TypeError
         | Some deps \<Rightarrow>
             (case dfs_loop g deps (insert i visited, insert i recStack) of
                Inl e \<Rightarrow> Inl e
              | Inr (True, st) \<Rightarrow> Inr (True, st)
              | Inr (False, (visited', recStack')) \<Rightarrow>
                  Inr (False, (visited', recStack' - {i}))))
      else Inr (False, (visited, recStack - {i})))"
| "dfs_loop g [] st = Inr (False, st)"
| "dfs_loop g (dep # deps) (visited, recStack) =
     (if dep \<notin> visited then
        (case dfs g dep (visited, recStack) of
           Inl e \<Rightarrow> Inl e
         | Inr (True, st) \<Rightarrow> Inr (True, st)
         | Inr (False, (visited', recStack')) \<Rightarrow>
             if dep \<in> recStack' then Inr (True, (visited', recStack'))
             else dfs_loop g deps (visited', recStack'))
      else if dep \<in> recStack then Inr (True, (visited, recStack))
      else dfs_loop g deps (visited, recStack))"
  by pat_completeness auto

text \<open>
  Termination: every call of \<open>dfs\<close> that reaches the loop marks a new key of the graph
  as visited, and the visited set never shrinks.
\<close>

lemma dfs_visited_mono:
  "dfs_dfs_loop_dom (Inl (g, i, st)) \<Longrightarrow> dfs g i st = Inr (b, st') \<Longrightarrow> fst st \<subseteq> fst st'"
  "dfs_dfs_loop_dom (Inr (g, ds, st)) \<Longrightarrow> dfs_loop g ds st = Inr (b, st') \<Longrightarrow> fst st \<subseteq> fst st'"
proof (induction g i st and g ds st arbitrary: b st' and b st' rule: dfs_dfs_loop.pinduct)
  case (1 g i visited recStack)
  show ?case
  proof (cases "i \<in> visited")
    case True
    with 1(1,3) show ?thesis by (auto simp: dfs.psimps)
  next
    case False
    with 1(1,3) obtain deps where d: "map_of g i = Some deps"
      by (auto simp: dfs.psimps split: option.splits)
    with False 1(1,3) obtain b2 v2 r2 where
      l: "dfs_loop g deps (insert i visited, insert i recStack) = Inr (b2, (v2, r2))"
      and "fst st' = v2"
      by (auto simp: dfs.psimps split: sum.splits bool.splits)
    from 1(2)[OF False d l] \<open>fst st' = v2\<close> show ?thesis by auto
  qed
next
  case (2 g st)
  then show ?case by (simp add: dfs_loop.psimps)
next
  case (3 g dep deps visited recStack)
  show ?case
  proof (cases "dep \<in> visited")
    case True
    show ?thesis
    proof (cases "dep \<in> recStack")
      case True
      with \<open>dep \<in> visited\<close> 3(1,5) show ?thesis by (auto simp: dfs_loop.psimps)
    next
      case False
      with \<open>dep \<in> visited\<close> 3(1,5) have "dfs_loop g deps (visited, recStack) = Inr (b, st')"
        by (simp add: dfs_loop.psimps)
      from 3(4)[OF _ False this] \<open>dep \<in> visited\<close> show ?thesis by simp
    qed
  next
    case False
    with 3(1,5) obtain b2 v2 r2 where
      d: "dfs g dep (visited, recStack) = Inr (b2, (v2, r2))"
      by (auto simp: dfs_loop.psimps split: sum.splits)
    from 3(2)[OF False d] have m: "visited \<subseteq> v2" by simp
    show ?thesis
    proof (cases "b2 \<or> dep \<in> r2")
      case True
      with \<open>dep \<notin> visited\<close> d 3(1,5) have "fst st' = v2"
        by (auto simp: dfs_loop.psimps split: bool.splits if_splits)
      with m show ?thesis by simp
    next
      case False
      with \<open>dep \<notin> visited\<close> d 3(1,5) have l: "dfs_loop g deps (v2, r2) = Inr (b, st')"
        by (auto simp: dfs_loop.psimps split: bool.splits if_splits)
      from False have nb: "b2 = False" and nr: "dep \<notin> r2" by auto
      from 3(3)[OF \<open>dep \<notin> visited\<close> d refl nb refl nr l] have "v2 \<subseteq> fst st'" by simp
      with m show ?thesis by auto
    qed
  qed
qed

termination dfs
proof (relation "measures [
    (\<lambda>x. case x of Inl (g, i, st) \<Rightarrow> card (fst ` set g - fst st)
                 | Inr (g, ds, st) \<Rightarrow> card (fst ` set g - fst st)),
    (\<lambda>x. case x of Inl (g, i, st) \<Rightarrow> 0 | Inr (g, ds, st) \<Rightarrow> Suc (length ds))]", goal_cases)
  case 1
  show ?case by simp
next
  case (2 g i visited recStack deps)
  then have "i \<in> fst ` set g" by (metis map_of_SomeD fst_conv image_eqI)
  with 2 have "card (fst ` set g - insert i visited) < card (fst ` set g - visited)"
    by (intro psubset_card_mono) auto
  then show ?case by simp
next
  case 3
  then show ?case by simp
next
  case (4 g dep deps visited recStack r b st' v' r')
  from 4(2,3) have "dfs g dep (visited, recStack) = Inr (b, st')" by simp
  from dfs_visited_mono(1)[OF 4(7) this] 4(5) have "visited \<subseteq> v'" by auto
  then have "card (fst ` set g - v') \<le> card (fst ` set g - visited)"
    by (intro card_mono) auto
  then show ?case by auto
next
  case 5
  then show ?case by simp
qed

text \<open>\<^verbatim>\<open>steps.some(s => dfs(s.id))\<close>: stops at the first \<^verbatim>\<open>true\<close>, and at a throw.\<close>

fun some_dfs :: "graph \<Rightarrow> PlanStep list \<Rightarrow> dfs_state \<Rightarrow> error + bool" where
  "some_dfs g [] st = Inr False"
| "some_dfs g (s # ss) st =
     (case dfs g (step_id s) st of
        Inl e \<Rightarrow> Inl e
      | Inr (True, st') \<Rightarrow> Inr True
      | Inr (False, st') \<Rightarrow> some_dfs g ss st')"

definition hasCycles :: "PlanStep list \<Rightarrow> error + bool" where
  "hasCycles ss = some_dfs (build_graph ss) ss ({}, {})"

subsection \<open>The heuristic plan and the two entry points\<close>

definition mk_step :: "int \<Rightarrow> string \<Rightarrow> string \<Rightarrow> int list \<Rightarrow> PlanStep" where
  "mk_step i t d deps =
     \<lparr> step_id = i, step_title = lit t, step_description = lit d, dependencies = deps,
       step_templates = None, commands = None, complexity = None, estimatedTimeMin = None \<rparr>"

definition fallbackHeuristicPlan :: "jsstring \<Rightarrow> Plan" where
  "fallbackHeuristicPlan g =
     \<lparr> plan_id = lit ''local-fallback'',
       plan_title = lit ''Plan for: '' @ g,
       goal = g,
       steps =
         [ mk_step 1 ''Initialize project'' ''Set up project structure'' [],
           mk_step 2 ''Create model'' ''Define data model'' [1],
           mk_step 3 ''Add routes'' ''Implement API routes'' [2],
           mk_step 4 ''Test project'' ''Write and run tests'' [3] ] \<rparr>"

text \<open>
  \<^verbatim>\<open>apiKey ? ... : ...\<close>: the key read from the store is \<^verbatim>\<open>undefined\<close> (\<open>None\<close>) or a
  string; the empty string is falsy as well.
\<close>

definition truthy_key :: "jsstring option \<Rightarrow> bool" where
  "truthy_key k = (case k of None \<Rightarrow> False | Some s \<Rightarrow> s \<noteq> [])"

text \<open>
  \<^verbatim>\<open>LLMClient.parseJsonResponse\<close>: \<^verbatim>\<open>JSON.parse(raw) as T\<close>, any failure replaced by a fixed
  error. The parameter \<open>json_parse\<close> is the runtime's parser followed by the unchecked
  cast; \<open>None\<close> is a text it rejects.
\<close>

definition parseJsonResponse :: "(jsstring \<Rightarrow> 'a option) \<Rightarrow> jsstring \<Rightarrow> error + 'a" where
  "parseJsonResponse json_parse raw =
     (case json_parse raw of
        None \<Rightarrow> Inl (Error (lit ''Failed to parse JSON response''))
      | Some v \<Rightarrow> Inr v)"

text \<open>
  The body of the \<^verbatim>\<open>try\<close> block that \<^verbatim>\<open>generatePlan\<close> and \<^verbatim>\<open>refinePlan\<close> share word for
  word, with its \<^verbatim>\<open>catch\<close>: whatever is thrown inside, the parse failure and the
  \<^verbatim>\<open>TypeError\<close> of the search included, is rethrown with the prefix.
\<close>

definition check_plan :: "Plan \<Rightarrow> error + Plan" where
  "check_plan p =
     (if \<not> hasUniqueIds (steps p) then Inl (Error (lit ''Step IDs must be unique''))
      else case hasCycles (steps p) of
             Inl e \<Rightarrow> Inl e
           | Inr True \<Rightarrow> Inl (Error (lit ''Plan has cyclic dependencies''))
           | Inr False \<Rightarrow> Inr p)"

definition parse_and_check :: "(jsstring \<Rightarrow> Plan option) \<Rightarrow> jsstring \<Rightarrow> error + Plan" where
  "parse_and_check json_parse raw =
     (case (case parseJsonResponse json_parse raw of
              Inl e \<Rightarrow> Inl e
            | Inr p \<Rightarrow> check_plan p) of
        Inl e \<Rightarrow> Inl (Prefixed (lit ''Invalid plan format: '') e)
      | Inr p \<Rightarrow> Inr p)"

text \<open>
  \<open>apiKey\<close> is what \<^verbatim>\<open>readKey()\<close> returned and \<open>chat\<close> the outcome of
  \<^verbatim>\<open>llm.chat(PLAN_PROMPT(goal))\<close> (an error it throws is not caught here).
\<close>

definition generatePlan ::
  "jsstring option \<Rightarrow> (error + jsstring) \<Rightarrow> (jsstring \<Rightarrow> Plan option) \<Rightarrow> jsstring \<Rightarrow> error + Plan"
where
  "generatePlan apiKey chat json_parse g =
     (if truthy_key apiKey then
        (case chat of
           Inl e \<Rightarrow> Inl e
         | Inr raw \<Rightarrow> parse_and_check json_parse raw)
      else Inr (fallbackHeuristicPlan g))"

definition refinePlan ::
  "jsstring option \<Rightarrow> (error + jsstring) \<Rightarrow> (jsstring \<Rightarrow> Plan option) \<Rightarrow> Plan \<Rightarrow> error + Plan"
where
  "refinePlan apiKey chat json_parse p =
     (if truthy_key apiKey then
        (case chat of
           Inl e \<Rightarrow> Inl e
         | Inr raw \<Rightarrow> parse_and_check json_parse raw)
      else Inr p)"

subsection \<open>The heuristic baseline\<close>

text \<open>
  Claim C5. With no API key configured (\<^verbatim>\<open>readKey()\<close> gives \<^verbatim>\<open>undefined\<close> or the empty
  string), \<open>generatePlan\<close> returns, for every goal, the heuristic plan: exactly four
  steps with identifiers 1 to 4, step 1 without dependencies and every later step
  depending on its immediate predecessor only, and the title \<^verbatim>\<open>"Plan for: "\<close> followed
  by the goal.
\<close>

theorem generatePlan_no_provider:
  assumes "\<not> truthy_key apiKey"
  shows "\<exists>p. generatePlan apiKey chat json_parse g = Inr p
           \<and> p = fallbackHeuristicPlan g
           \<and> length (steps p) = 4
           \<and> map step_id (steps p) = [1, 2, 3, 4]
           \<and> map dependencies (steps p) = [[], [1], [2], [3]]
           \<and> plan_title p = lit ''Plan for: '' @ g"
  using assms by (simp add: generatePlan_def fallbackHeuristicPlan_def mk_step_def)

theorem generatePlan_no_provider_witness:
  "\<not> truthy_key None
   \<and> (\<exists>p. generatePlan None (Inl TypeError) (\<lambda>_. None) (lit ''Build a REST API'') = Inr p
        \<and> length (steps p) = 4
        \<and> map step_id (steps p) = [1, 2, 3, 4]
        \<and> map dependencies (steps p) = [[], [1], [2], [3]]
        \<and> plan_title p = lit ''Plan for: Build a REST API'')"
proof -
  have h: "\<not> truthy_key None" by (simp add: truthy_key_def)
  from generatePlan_no_provider [OF h, of "Inl TypeError" "\<lambda>_. None" "lit ''Build a REST API''"]
  show ?thesis using h by (auto simp: lit_def)
qed


subsection \<open>What the cycle check decides\<close>

text \<open>
  The graph the search walks: \<open>edges g\<close> holds \<open>(a, b)\<close> when \<open>b\<close> is listed under the
  key \<open>a\<close>; a graph is \<open>dangling\<close> when some listed identifier is not a key, and
  \<open>cyclic\<close> when some node reaches itself. \<open>dfs_inv\<close> is the invariant of the search:
  the stack is part of the visited set, only keys are visited, and the finished nodes
  (visited and off the stack) are closed under the edges and lie on no cycle.
\<close>

definition edges :: "graph \<Rightarrow> (int \<times> int) set" where
  "edges g = {(a, b). \<exists>ds. map_of g a = Some ds \<and> b \<in> set ds}"

definition keys :: "graph \<Rightarrow> int set" where
  "keys g = fst ` set g"

definition dangling :: "graph \<Rightarrow> bool" where
  "dangling g = (\<exists>(a, b) \<in> edges g. b \<notin> keys g)"

definition cyclic :: "graph \<Rightarrow> bool" where
  "cyclic g = (\<exists>x. (x, x) \<in> (edges g)\<^sup>+)"

fun dfs_inv :: "graph \<Rightarrow> dfs_state \<Rightarrow> bool" where
  "dfs_inv g (V, R) =
     (R \<subseteq> V \<and> V \<subseteq> keys g \<and> edges g `` (V - R) \<subseteq> V - R \<and> (\<forall>b \<in> V - R. (b, b) \<notin> (edges g)\<^sup>+))"

lemma closed_reach:
  assumes "(a, b) \<in> E\<^sup>*" "a \<in> B" "E `` B \<subseteq> B"
  shows "b \<in> B"
  using assms by (induction rule: rtrancl_induct) auto

lemma map_of_keys: "map_of g i = Some ds \<Longrightarrow> i \<in> keys g"
  unfolding keys_def by (metis map_of_SomeD fst_conv image_eqI)

lemma map_of_None_keys: "map_of g i = None \<Longrightarrow> i \<notin> keys g"
  unfolding keys_def by (simp add: map_of_eq_None_iff)

lemma edges_image: "map_of g i = Some ds \<Longrightarrow> edges g `` {i} = set ds"
  by (auto simp: edges_def)

lemma edgesI: "map_of g i = Some ds \<Longrightarrow> d \<in> set ds \<Longrightarrow> (i, d) \<in> edges g"
  by (auto simp: edges_def)

lemma finish_node:
  assumes inv: "dfs_inv g (V', insert i R)" and iV: "i \<in> V'" and iR: "i \<notin> R"
    and m: "map_of g i = Some ds" and sub: "set ds \<subseteq> V' - insert i R"
  shows "dfs_inv g (V', R)"
proof -
  let ?E = "edges g" and ?B = "V' - insert i R"
  from inv have c: "?E `` ?B \<subseteq> ?B" and a: "\<forall>b \<in> ?B. (b, b) \<notin> ?E\<^sup>+"
    and rv: "insert i R \<subseteq> V'" and vk: "V' \<subseteq> keys g" by auto
  have eq: "V' - R = insert i ?B" using iV iR by auto
  have ci: "?E `` {i} \<subseteq> ?B" using edges_image[OF m] sub by simp
  have cl: "?E `` (V' - R) \<subseteq> V' - R" unfolding eq using c ci by blast
  have ii: "(i, i) \<notin> ?E\<^sup>+"
  proof
    assume "(i, i) \<in> ?E\<^sup>+"
    then obtain d where "(i, d) \<in> ?E" "(d, i) \<in> ?E\<^sup>*" by (meson tranclD)
    then have "d \<in> ?B" using ci by auto
    from closed_reach[OF \<open>(d, i) \<in> ?E\<^sup>*\<close> this c] have "i \<in> ?B" .
    then show False by simp
  qed
  have ac: "\<forall>b \<in> V' - R. (b, b) \<notin> ?E\<^sup>+" unfolding eq using a ii by blast
  from rv have "R \<subseteq> V'" by auto
  with vk cl ac show ?thesis by simp
qed

lemma push_node:
  assumes inv: "dfs_inv g (V, R)" and iV: "i \<notin> V" and m: "map_of g i = Some ds"
  shows "dfs_inv g (insert i V, insert i R)"
proof -
  from inv iV have "insert i V - insert i R = V - R" by auto
  with inv map_of_keys[OF m] show ?thesis by auto
qed

declare dfs.simps [simp del] dfs_loop.simps [simp del] dfs_inv.simps [simp del]

definition dfs_post :: "graph \<Rightarrow> int \<Rightarrow> dfs_state \<Rightarrow> error + (bool \<times> dfs_state) \<Rightarrow> bool" where
  "dfs_post g i st r =
     (case r of
        Inl e \<Rightarrow> i \<notin> keys g \<or> dangling g
      | Inr (b, st') \<Rightarrow>
          if b then cyclic g
          else snd st' = snd st \<and> fst st \<subseteq> fst st' \<and> i \<in> fst st' \<and> dfs_inv g st')"

definition loop_post :: "graph \<Rightarrow> int list \<Rightarrow> dfs_state \<Rightarrow> error + (bool \<times> dfs_state) \<Rightarrow> bool" where
  "loop_post g ds st r =
     (case r of
        Inl e \<Rightarrow> (\<exists>d \<in> set ds. d \<notin> keys g) \<or> dangling g
      | Inr (b, st') \<Rightarrow>
          if b then cyclic g
          else snd st' = snd st \<and> fst st \<subseteq> fst st' \<and> set ds \<subseteq> fst st' - snd st \<and> dfs_inv g st')"

lemma dfs_correct:
  "dfs_inv g st \<Longrightarrow> i \<notin> fst st \<Longrightarrow> \<forall>s \<in> snd st. (s, i) \<in> (edges g)\<^sup>* \<Longrightarrow>
     dfs_post g i st (dfs g i st)"
  "dfs_inv g st \<Longrightarrow> \<forall>s \<in> snd st. \<forall>d \<in> set ds. (s, d) \<in> (edges g)\<^sup>+ \<Longrightarrow>
     loop_post g ds st (dfs_loop g ds st)"
proof (induction g i st and g ds st rule: dfs_dfs_loop.induct)
  case (1 g i V R)
  from 1(2) have inv: "dfs_inv g (V, R)" .
  from 1(3) have iV: "i \<notin> V" by simp
  from 1(4) have path: "\<forall>s \<in> R. (s, i) \<in> (edges g)\<^sup>*" by simp
  from inv iV have iR: "i \<notin> R" by (auto simp: dfs_inv.simps)
  show ?case
  proof (cases "map_of g i")
    case None
    with iV have "dfs g i (V, R) = Inl TypeError" by (simp add: dfs.simps)
    with map_of_None_keys[OF None] show ?thesis by (simp add: dfs_post_def)
  next
    case (Some ds)
    let ?st1 = "(insert i V, insert i R)"
    have inv1: "dfs_inv g ?st1" by (rule push_node[OF inv iV Some])
    have path1: "\<forall>s \<in> snd ?st1. \<forall>d \<in> set ds. (s, d) \<in> (edges g)\<^sup>+"
    proof (intro ballI)
      fix s d assume s: "s \<in> snd ?st1" and d: "d \<in> set ds"
      from d have e: "(i, d) \<in> edges g" by (rule edgesI[OF Some])
      from s path have "(s, i) \<in> (edges g)\<^sup>*" by auto
      from this e show "(s, d) \<in> (edges g)\<^sup>+" by (rule rtrancl_into_trancl1)
    qed
    from 1(1)[OF iV Some inv1 path1]
    have lp: "loop_post g ds ?st1 (dfs_loop g ds ?st1)" .
    show ?thesis
    proof (cases "dfs_loop g ds ?st1")
      case (Inl e)
      with iV Some have r: "dfs g i (V, R) = Inl e" by (simp add: dfs.simps)
      from lp Inl have "(\<exists>d \<in> set ds. d \<notin> keys g) \<or> dangling g" by (simp add: loop_post_def)
      then have "dangling g"
      proof
        assume "\<exists>d \<in> set ds. d \<notin> keys g"
        then obtain d where "d \<in> set ds" "d \<notin> keys g" by blast
        with edgesI[OF Some] show ?thesis unfolding dangling_def by blast
      qed
      with r show ?thesis by (simp add: dfs_post_def)
    next
      case (Inr x)
      obtain b V' R' where x: "x = (b, (V', R'))" by (cases x) auto
      show ?thesis
      proof (cases b)
        case True
        with iV Some Inr x have r: "dfs g i (V, R) = Inr (True, (V', R'))" by (simp add: dfs.simps)
        from lp Inr x True have "cyclic g" by (simp add: loop_post_def)
        with r show ?thesis by (simp add: dfs_post_def)
      next
        case False
        with iV Some Inr x have r: "dfs g i (V, R) = Inr (False, (V', R' - {i}))"
          by (simp add: dfs.simps)
        from lp Inr x False have R': "R' = insert i R" and sub: "insert i V \<subseteq> V'"
          and ds: "set ds \<subseteq> V' - insert i R" and inv': "dfs_inv g (V', R')"
          by (auto simp: loop_post_def)
        from sub have iV': "i \<in> V'" by auto
        from inv' R' have "dfs_inv g (V', insert i R)" by simp
        from finish_node[OF this iV' iR Some ds] have "dfs_inv g (V', R)" .
        moreover from R' iR have "R' - {i} = R" by auto
        ultimately show ?thesis using r sub iV' by (simp add: dfs_post_def)
      qed
    qed
  qed
next
  case (2 g st)
  then show ?case by (simp add: dfs_loop.simps loop_post_def)
next
  case (3 g dep deps V R)
  from 3(4) have inv: "dfs_inv g (V, R)" .
  then have RV: "R \<subseteq> V" by (simp add: dfs_inv.simps)
  from 3(5) have path: "\<forall>s \<in> R. \<forall>d \<in> set (dep # deps). (s, d) \<in> (edges g)\<^sup>+" by simp
  then have path': "\<forall>s \<in> R. \<forall>d \<in> set deps. (s, d) \<in> (edges g)\<^sup>+" by simp
  show ?case
  proof (cases "dep \<in> V")
    case True
    show ?thesis
    proof (cases "dep \<in> R")
      case inR: True
      with True have r: "dfs_loop g (dep # deps) (V, R) = Inr (True, (V, R))"
        by (simp add: dfs_loop.simps)
      from path inR have "(dep, dep) \<in> (edges g)\<^sup>+" by simp
      then have "cyclic g" unfolding cyclic_def by blast
      with r show ?thesis by (simp add: loop_post_def)
    next
      case notR: False
      with True have r: "dfs_loop g (dep # deps) (V, R) = dfs_loop g deps (V, R)"
        by (simp add: dfs_loop.simps)
      have "\<not> dep \<notin> V" using True by simp
      from 3(3)[OF this notR inv] path'
      have lp: "loop_post g deps (V, R) (dfs_loop g deps (V, R))" by simp
      show ?thesis
      proof (cases "dfs_loop g deps (V, R)")
        case (Inl e)
        with lp r show ?thesis by (auto simp: loop_post_def)
      next
        case (Inr x)
        obtain b V' R' where x: "x = (b, (V', R'))" by (cases x) auto
        with lp r Inr True notR show ?thesis by (cases b) (auto simp: loop_post_def)
      qed
    qed
  next
    case False
    from False RV have notR: "dep \<notin> R" by auto
    from path have "\<forall>s \<in> snd (V, R). (s, dep) \<in> (edges g)\<^sup>*" by (simp add: trancl_into_rtrancl)
    from 3(1)[OF False inv _ this] False
    have dp: "dfs_post g dep (V, R) (dfs g dep (V, R))" by simp
    show ?thesis
    proof (cases "dfs g dep (V, R)")
      case (Inl e)
      with False have r: "dfs_loop g (dep # deps) (V, R) = Inl e" by (simp add: dfs_loop.simps)
      from dp Inl have "dep \<notin> keys g \<or> dangling g" by (simp add: dfs_post_def)
      with r show ?thesis by (auto simp: loop_post_def)
    next
      case (Inr x)
      obtain b V1 R1 where x: "x = (b, (V1, R1))" by (cases x) auto
      show ?thesis
      proof (cases b)
        case True
        with False Inr x have r: "dfs_loop g (dep # deps) (V, R) = Inr (True, (V1, R1))"
          by (simp add: dfs_loop.simps)
        from dp Inr x True have "cyclic g" by (simp add: dfs_post_def)
        with r show ?thesis by (simp add: loop_post_def)
      next
        case nb: False
        from dp Inr x nb have R1: "R1 = R" and sub: "V \<subseteq> V1" and dV1: "dep \<in> V1"
          and inv1: "dfs_inv g (V1, R1)" by (auto simp: dfs_post_def)
        from R1 notR have nr: "dep \<notin> R1" by simp
        with False Inr x nb have r: "dfs_loop g (dep # deps) (V, R) = dfs_loop g deps (V1, R1)"
          by (simp add: dfs_loop.simps)
        have d: "dfs g dep (V, R) = Inr (b, (V1, R1))" using Inr x by simp
        from path' R1 have p1: "\<forall>s \<in> snd (V1, R1). \<forall>d \<in> set deps. (s, d) \<in> (edges g)\<^sup>+" by simp
        from 3(2)[OF False d refl _ refl nr inv1 p1] nb
        have lp: "loop_post g deps (V1, R1) (dfs_loop g deps (V1, R1))" by simp
        show ?thesis
        proof (cases "dfs_loop g deps (V1, R1)")
          case (Inl e)
          with lp r show ?thesis by (auto simp: loop_post_def)
        next
          case (Inr y)
          obtain b2 V2 R2 where y: "y = (b2, (V2, R2))" by (cases y) auto
          with lp r Inr R1 sub dV1 notR show ?thesis by (cases b2) (auto simp: loop_post_def)
        qed
      qed
    qed
  qed
qed

lemma dfs_visited_top:
  "i \<in> V \<Longrightarrow> dfs g i (V, {}) = Inr (False, (V, {}))"
  by (simp add: dfs.simps)

definition some_post :: "graph \<Rightarrow> int set \<Rightarrow> PlanStep list \<Rightarrow> error + bool \<Rightarrow> bool" where
  "some_post g V ss r =
     (case r of
        Inl e \<Rightarrow> dangling g
      | Inr b \<Rightarrow> if b then cyclic g
                 else \<exists>V'. V \<union> step_id ` set ss \<subseteq> V' \<and> dfs_inv g (V', {}))"

lemma some_post_step:
  assumes "some_post g V1 ss r" and "V \<subseteq> V1" and "step_id s \<in> V1"
  shows "some_post g V (s # ss) r"
proof (cases r)
  case (Inl e)
  then show ?thesis using assms unfolding some_post_def by simp
next
  case (Inr b)
  show ?thesis
  proof (cases b)
    case True
    with Inr assms show ?thesis unfolding some_post_def by simp
  next
    case False
    with Inr assms obtain V' where "V1 \<union> step_id ` set ss \<subseteq> V'" and inv: "dfs_inv g (V', {})"
      unfolding some_post_def by auto
    with assms have "V \<union> step_id ` set (s # ss) \<subseteq> V'" by auto
    with inv Inr False show ?thesis unfolding some_post_def by auto
  qed
qed

lemma some_dfs_correct:
  "dfs_inv g (V, {}) \<Longrightarrow> step_id ` set ss \<subseteq> keys g \<Longrightarrow>
     some_post g V ss (some_dfs g ss (V, {}))"
proof (induction ss arbitrary: V)
  case Nil
  then show ?case by (auto simp: some_post_def)
next
  case (Cons s ss)
  let ?i = "step_id s"
  from Cons.prems have ik: "?i \<in> keys g" and sub: "step_id ` set ss \<subseteq> keys g" by auto
  show ?case
  proof (cases "?i \<in> V")
    case True
    then have r: "some_dfs g (s # ss) (V, {}) = some_dfs g ss (V, {})"
      by (simp add: dfs_visited_top)
    from some_post_step[OF Cons.IH[OF Cons.prems(1) sub] subset_refl True] show ?thesis
      unfolding r .
  next
    case False
    from dfs_correct(1)[of g "(V, {})" ?i] Cons.prems(1) False
    have dp: "dfs_post g ?i (V, {}) (dfs g ?i (V, {}))" by simp
    show ?thesis
    proof (cases "dfs g ?i (V, {})")
      case (Inl e)
      with dp ik show ?thesis by (simp add: dfs_post_def some_post_def)
    next
      case (Inr x)
      obtain b V1 R1 where x: "x = (b, (V1, R1))" by (cases x) auto
      show ?thesis
      proof (cases b)
        case True
        with dp Inr x show ?thesis by (simp add: dfs_post_def some_post_def)
      next
        case nb: False
        from dp Inr x nb have R1: "R1 = {}" and s1: "V \<subseteq> V1" and i1: "?i \<in> V1"
          and inv1: "dfs_inv g (V1, {})" by (auto simp: dfs_post_def)
        from Inr x nb R1 have r: "some_dfs g (s # ss) (V, {}) = some_dfs g ss (V1, {})" by simp
        from some_post_step[OF Cons.IH[OF inv1 sub] s1 i1] show ?thesis
          unfolding r .
      qed
    qed
  qed
qed

lemma keys_fold_update:
  "keys (fold (\<lambda>s g. AList.update (step_id s) (dependencies s) g) ss g0)
     = step_id ` set ss \<union> keys g0"
  by (induction ss arbitrary: g0) (auto simp: keys_def dom_update)

lemma keys_build_graph: "keys (build_graph ss) = step_id ` set ss"
  by (simp add: build_graph_def keys_fold_update) (simp add: keys_def)

lemma map_of_fold_update:
  "distinct (map step_id ss) \<Longrightarrow>
     (map_of (fold (\<lambda>s g. AList.update (step_id s) (dependencies s) g) ss g0) a = Some ds)
       \<longleftrightarrow> (\<exists>s \<in> set ss. step_id s = a \<and> dependencies s = ds)
            \<or> (a \<notin> step_id ` set ss \<and> map_of g0 a = Some ds)"
proof (induction ss arbitrary: g0)
  case Nil
  then show ?case by simp
next
  case (Cons s ss)
  from Cons.prems have d: "distinct (map step_id ss)" and n: "step_id s \<notin> step_id ` set ss"
    by auto
  show ?case
    using n by (auto simp: Cons.IH[OF d] update_Some_unfold)
qed

text \<open>
  The same notions on the steps of a plan: \<open>(a, b)\<close> is in the dependency relation when
  a step with identifier \<open>a\<close> lists \<open>b\<close>; the references resolve when every listed
  identifier is the identifier of a step.
\<close>

definition dependency_relation :: "PlanStep list \<Rightarrow> (int \<times> int) set" where
  "dependency_relation ss = {(a, b). \<exists>s \<in> set ss. step_id s = a \<and> b \<in> set (dependencies s)}"

definition references_resolve :: "PlanStep list \<Rightarrow> bool" where
  "references_resolve ss = ((\<Union>s \<in> set ss. set (dependencies s)) \<subseteq> step_id ` set ss)"

lemma edges_build_graph:
  "distinct (map step_id ss) \<Longrightarrow> edges (build_graph ss) = dependency_relation ss"
  by (auto simp: edges_def dependency_relation_def build_graph_def map_of_fold_update)

lemma dangling_build_graph:
  "distinct (map step_id ss) \<Longrightarrow> dangling (build_graph ss) \<longleftrightarrow> \<not> references_resolve ss"
  unfolding dangling_def keys_build_graph
  by (auto simp: edges_build_graph dependency_relation_def references_resolve_def)

lemma hasUniqueIds_distinct: "hasUniqueIds ss \<longleftrightarrow> distinct (map step_id ss)"
  unfolding hasUniqueIds_def Let_def
  by (metis card_distinct distinct_card)

lemma edges_source: "(a, b) \<in> edges g \<Longrightarrow> a \<in> keys g"
  by (auto simp: edges_def intro: map_of_keys)

lemma hasCycles_cases:
  "(case hasCycles ss of
      Inl e \<Rightarrow> dangling (build_graph ss)
    | Inr b \<Rightarrow> if b then cyclic (build_graph ss)
               else \<not> dangling (build_graph ss) \<and> \<not> cyclic (build_graph ss))"
proof -
  let ?g = "build_graph ss"
  have inv0: "dfs_inv ?g ({}, {})" by (simp add: dfs_inv.simps)
  have sub: "step_id ` set ss \<subseteq> keys ?g" by (simp add: keys_build_graph)
  note c = some_dfs_correct[OF inv0 sub, unfolded some_post_def]
  show ?thesis
  proof (cases "hasCycles ss")
    case (Inl e)
    with c show ?thesis by (simp add: hasCycles_def)
  next
    case (Inr b)
    show ?thesis
    proof (cases b)
      case True
      with c Inr show ?thesis by (simp add: hasCycles_def)
    next
      case False
      with c Inr obtain V' where V': "step_id ` set ss \<subseteq> V'" and inv: "dfs_inv ?g (V', {})"
        by (auto simp: hasCycles_def)
      from inv have vk: "V' \<subseteq> keys ?g" and cl: "edges ?g `` V' \<subseteq> V'"
        and ac: "\<forall>b \<in> V'. (b, b) \<notin> (edges ?g)\<^sup>+" by (simp_all add: dfs_inv.simps)
      from V' vk have eq: "V' = keys ?g" by (simp add: keys_build_graph)
      have nd: "\<not> dangling ?g" using cl edges_source[of _ _ ?g] unfolding dangling_def eq by blast
      have "\<not> cyclic ?g"
      proof
        assume "cyclic ?g"
        then obtain x where x: "(x, x) \<in> (edges ?g)\<^sup>+" unfolding cyclic_def by blast
        then obtain y where "(x, y) \<in> edges ?g" by (meson tranclD)
        then have "x \<in> keys ?g" by (rule edges_source)
        with ac eq x show False by auto
      qed
      with nd Inr False show ?thesis by simp
    qed
  qed
qed

lemma cyclic_acyclic: "cyclic g \<longleftrightarrow> \<not> acyclic (edges g)"
  by (simp add: cyclic_def acyclic_def)

lemma hasCycles_False_iff:
  assumes "distinct (map step_id ss)"
  shows "hasCycles ss = Inr False \<longleftrightarrow> references_resolve ss \<and> acyclic (dependency_relation ss)"
  using hasCycles_cases[of ss]
  by (cases "hasCycles ss")
     (auto simp: dangling_build_graph[OF assms] cyclic_acyclic edges_build_graph[OF assms]
           split: if_splits)

lemma dfs_error_TypeError:
  "dfs g i st = Inl e \<Longrightarrow> e = TypeError"
  "dfs_loop g ds st = Inl e \<Longrightarrow> e = TypeError"
proof (induction g i st and g ds st rule: dfs_dfs_loop.induct)
  case (1 g i V R)
  then show ?case
    by (simp add: dfs.simps split: if_splits option.splits sum.splits prod.splits bool.splits)
next
  case (2 g st)
  then show ?case by (simp add: dfs_loop.simps)
next
  case (3 g dep deps V R)
  then show ?case
    by (simp add: dfs_loop.simps split: if_splits option.splits sum.splits prod.splits bool.splits)
qed

lemma some_dfs_error_TypeError: "some_dfs g ss st = Inl e \<Longrightarrow> e = TypeError"
  by (induction ss arbitrary: st)
     (auto split: sum.splits prod.splits bool.splits dest: dfs_error_TypeError(1))

text \<open>Concrete runs of the search.\<close>

definition dep_step :: "int \<Rightarrow> int list \<Rightarrow> PlanStep" where
  "dep_step i deps = mk_step i [] [] deps"

text \<open>The dependency relation restricted to the steps of the plan: edges to missing steps dropped.\<close>

definition restricted_relation :: "PlanStep list \<Rightarrow> (int \<times> int) set" where
  "restricted_relation ss = {(a, b) \<in> dependency_relation ss. b \<in> step_id ` set ss}"

lemma hasCycles_cyclic_example: "hasCycles [dep_step 1 [], dep_step 2 [1], dep_step 3 [2, 4], dep_step 4 [3]] = Inr True"
  by (simp add: hasCycles_def build_graph_def dep_step_def mk_step_def dfs.simps dfs_loop.simps)

lemma hasCycles_acyclic_example: "hasCycles [dep_step 1 [], dep_step 2 [1], dep_step 3 [2, 4], dep_step 4 []] = Inr False"
  by (simp add: hasCycles_def build_graph_def dep_step_def mk_step_def dfs.simps dfs_loop.simps)

lemma hasCycles_dangling_example: "hasCycles [dep_step 1 [99]] = Inl TypeError"
  by (simp add: hasCycles_def build_graph_def dep_step_def mk_step_def dfs.simps dfs_loop.simps)

lemma hasCycles_self_loop_example: "hasCycles [dep_step 1 [1, 99]] = Inr True"
  by (simp add: hasCycles_def build_graph_def dep_step_def mk_step_def dfs.simps dfs_loop.simps)

lemma hasUniqueIds_cyclic_example: "hasUniqueIds [dep_step 1 [], dep_step 2 [1], dep_step 3 [2, 4], dep_step 4 [3]]"
  by (simp add: hasUniqueIds_def dep_step_def mk_step_def)

lemma restricted_relation_dangling_example: "restricted_relation [dep_step 1 [99]] = {}"
  by (auto simp: restricted_relation_def dependency_relation_def dep_step_def mk_step_def)

subsection \<open>Validation, characterised\<close>

text \<open>The two example plans of the specification (identifiers and dependencies only).\<close>

definition cyclic_example :: "PlanStep list" where
  "cyclic_example = [dep_step 1 [], dep_step 2 [1], dep_step 3 [2, 4], dep_step 4 [3]]"

definition acyclic_example :: "PlanStep list" where
  "acyclic_example = [dep_step 1 [], dep_step 2 [1], dep_step 3 [2, 4], dep_step 4 []]"

text \<open>What validation accepts.\<close>

definition valid_steps :: "PlanStep list \<Rightarrow> bool" where
  "valid_steps ss =
     (distinct (map step_id ss) \<and> references_resolve ss \<and> acyclic (dependency_relation ss))"

lemma check_plan_iff: "check_plan p = Inr p \<longleftrightarrow> valid_steps (steps p)"
proof (cases "distinct (map step_id (steps p))")
  case True
  then have u: "hasUniqueIds (steps p)" by (simp add: hasUniqueIds_distinct)
  from hasCycles_False_iff[OF True] u True show ?thesis
    by (cases "hasCycles (steps p)") (auto simp: check_plan_def valid_steps_def split: bool.splits)
next
  case False
  then show ?thesis by (simp add: check_plan_def valid_steps_def hasUniqueIds_distinct)
qed

lemma check_plan_Inr: "check_plan p = Inr q \<Longrightarrow> q = p"
  by (auto simp: check_plan_def split: if_splits sum.splits bool.splits)

lemma parse_and_check_Some:
  "json_parse raw = Some p \<Longrightarrow>
     parse_and_check json_parse raw =
       (case check_plan p of Inl e \<Rightarrow> Inl (Prefixed (lit ''Invalid plan format: '') e) | Inr q \<Rightarrow> Inr q)"
  by (simp add: parse_and_check_def parseJsonResponse_def)

lemma parse_and_check_iff:
  "json_parse raw = Some p \<Longrightarrow> parse_and_check json_parse raw = Inr p \<longleftrightarrow> valid_steps (steps p)"
  using check_plan_Inr[of p] by (auto simp: parse_and_check_Some check_plan_iff[symmetric] split: sum.splits)

lemma check_cyclic_example:
  "steps p = cyclic_example \<Longrightarrow> check_plan p = Inl (Error (lit ''Plan has cyclic dependencies''))"
  by (simp add: check_plan_def cyclic_example_def hasCycles_cyclic_example hasUniqueIds_cyclic_example)

lemma check_acyclic_example:
  "steps p = acyclic_example \<Longrightarrow> check_plan p = Inr p"
  by (simp add: check_plan_def acyclic_example_def hasCycles_acyclic_example) (simp add: hasUniqueIds_def dep_step_def mk_step_def)

text \<open>
  Claim C1 (as amended). For a reply that parses to the plan \<open>p\<close>, \<open>generatePlan\<close> and
  \<open>refinePlan\<close> accept \<open>p\<close> if and only if the step identifiers are pairwise distinct,
  every dependency is the identifier of a step of the plan, and the dependency relation
  is acyclic. The plan with steps 1->[], 2->[1], 3->[2,4], 4->[3] is rejected for its
  cycle, and the same plan without the edge 4->3 is accepted.
\<close>

theorem plan_validation_iff:
  assumes "truthy_key k" and "json_parse raw = Some p"
  shows "(generatePlan k (Inr raw) json_parse g = Inr p \<longleftrightarrow> valid_steps (steps p))
       \<and> (refinePlan k (Inr raw) json_parse p0 = Inr p \<longleftrightarrow> valid_steps (steps p))
       \<and> (steps p = cyclic_example \<longrightarrow>
            generatePlan k (Inr raw) json_parse g
              = Inl (Prefixed (lit ''Invalid plan format: '') (Error (lit ''Plan has cyclic dependencies''))))
       \<and> (steps p = acyclic_example \<longrightarrow> generatePlan k (Inr raw) json_parse g = Inr p)"
proof -
  from assms have g: "generatePlan k (Inr raw) json_parse g = parse_and_check json_parse raw"
    and r: "refinePlan k (Inr raw) json_parse p0 = parse_and_check json_parse raw"
    by (simp_all add: generatePlan_def refinePlan_def)
  have 1: "parse_and_check json_parse raw = Inr p \<longleftrightarrow> valid_steps (steps p)"
    using assms(2) by (rule parse_and_check_iff[of json_parse raw p])
  have 2: "steps p = cyclic_example \<longrightarrow> parse_and_check json_parse raw
      = Inl (Prefixed (lit ''Invalid plan format: '') (Error (lit ''Plan has cyclic dependencies'')))"
    by (simp add: parse_and_check_Some[of json_parse raw p, OF assms(2)] check_cyclic_example)
  have 3: "steps p = acyclic_example \<longrightarrow> parse_and_check json_parse raw = Inr p"
    by (simp add: parse_and_check_Some[of json_parse raw p, OF assms(2)] check_acyclic_example)
  from 1 2 3 show ?thesis unfolding g r by blast
qed

text \<open>A plan around given steps, for the concrete runs.\<close>

definition example_plan :: "PlanStep list \<Rightarrow> Plan" where
  "example_plan ss = \<lparr> plan_id = lit ''p'', plan_title = lit ''t'', goal = lit ''g'', steps = ss \<rparr>"

text \<open>The theorem at the two example plans of the specification.\<close>

theorem plan_validation_iff_witness:
  "truthy_key (Some (lit ''sk''))
   \<and> generatePlan (Some (lit ''sk'')) (Inr []) (\<lambda>_. Some (example_plan acyclic_example)) []
       = Inr (example_plan acyclic_example)
   \<and> valid_steps (steps (example_plan acyclic_example))
   \<and> (\<exists>e. generatePlan (Some (lit ''sk'')) (Inr []) (\<lambda>_. Some (example_plan cyclic_example)) [] = Inl e)
   \<and> \<not> valid_steps (steps (example_plan cyclic_example))"
proof -
  have k: "truthy_key (Some (lit ''sk''))" by (simp add: truthy_key_def lit_def)
  have a: "steps (example_plan acyclic_example) = acyclic_example"
    and c: "steps (example_plan cyclic_example) = cyclic_example"
    by (simp_all add: example_plan_def)
  note A = plan_validation_iff[OF k, of "\<lambda>_. Some (example_plan acyclic_example)" "[]"
      "example_plan acyclic_example" "[]" "example_plan acyclic_example", OF refl]
  note C = plan_validation_iff[OF k, of "\<lambda>_. Some (example_plan cyclic_example)" "[]"
      "example_plan cyclic_example" "[]" "example_plan cyclic_example", OF refl]
  from A a have 1: "generatePlan (Some (lit ''sk'')) (Inr []) (\<lambda>_. Some (example_plan acyclic_example)) []
       = Inr (example_plan acyclic_example)" by blast
  with A have 2: "valid_steps (steps (example_plan acyclic_example))" by blast
  from C c have 3: "generatePlan (Some (lit ''sk'')) (Inr []) (\<lambda>_. Some (example_plan cyclic_example)) []
       = Inl (Prefixed (lit ''Invalid plan format: '') (Error (lit ''Plan has cyclic dependencies'')))" by blast
  with C have 4: "\<not> valid_steps (steps (example_plan cyclic_example))" by auto
  from k 1 2 3 4 show ?thesis by simp
qed

text \<open>
  Claim C1 as stated fails: the one-step plan 1->[99] has distinct identifiers, and its
  dependency relation restricted to the steps of the plan is empty, hence acyclic; yet
  validation does not succeed, because the search iterates \<^verbatim>\<open>graph[99]\<close>.
\<close>

theorem restricted_acyclic_not_enough:
  "distinct (map step_id (steps (example_plan [dep_step 1 [99]])))
   \<and> acyclic (restricted_relation (steps (example_plan [dep_step 1 [99]])))
   \<and> generatePlan (Some (lit ''sk'')) (Inr []) (\<lambda>_. Some (example_plan [dep_step 1 [99]])) []
       = Inl (Prefixed (lit ''Invalid plan format: '') TypeError)"
  by (simp add: example_plan_def restricted_relation_dangling_example acyclic_def generatePlan_def truthy_key_def lit_def
        parse_and_check_def parseJsonResponse_def check_plan_def hasCycles_dangling_example)
     (simp add: hasUniqueIds_def dep_step_def mk_step_def)

subsection \<open>Dependencies that name no step\<close>

text \<open>
  Claim C10 (as amended). If some dependency is not the identifier of any step, then
  \<open>hasCycles\<close>, on a plan whose identifiers are unique, never returns \<^verbatim>\<open>false\<close>: it
  throws the \<^verbatim>\<open>TypeError\<close> of iterating \<^verbatim>\<open>undefined\<close>, or it returns \<^verbatim>\<open>true\<close> because a
  cycle was met first; and \<open>generatePlan\<close> and \<open>refinePlan\<close> reject the plan with an
  error that carries the prefix \<^verbatim>\<open>Invalid plan format: \<close>.
\<close>

theorem dangling_dependency_rejected:
  assumes "\<not> references_resolve (steps p)"
  shows "(distinct (map step_id (steps p)) \<longrightarrow>
            hasCycles (steps p) = Inl TypeError \<or> hasCycles (steps p) = Inr True)
       \<and> (truthy_key k \<and> json_parse raw = Some p \<longrightarrow>
            (\<exists>e. generatePlan k (Inr raw) json_parse g = Inl (Prefixed (lit ''Invalid plan format: '') e))
          \<and> (\<exists>e. refinePlan k (Inr raw) json_parse p0 = Inl (Prefixed (lit ''Invalid plan format: '') e)))"
proof -
  have h: "hasCycles (steps p) = Inl TypeError \<or> hasCycles (steps p) = Inr True"
    if d: "distinct (map step_id (steps p))"
  proof (cases "hasCycles (steps p)")
    case (Inl e)
    then have "e = TypeError" unfolding hasCycles_def by (rule some_dfs_error_TypeError)
    with Inl show ?thesis by simp
  next
    case (Inr b)
    with hasCycles_False_iff[OF d] assms show ?thesis by (cases b) auto
  qed
  have "\<not> valid_steps (steps p)" using assms by (simp add: valid_steps_def)
  then have "check_plan p \<noteq> Inr p" by (simp add: check_plan_iff)
  with check_plan_Inr[of p] obtain e where "check_plan p = Inl e"
    by (cases "check_plan p") auto
  then have "truthy_key k \<and> json_parse raw = Some p \<longrightarrow>
            (\<exists>e. generatePlan k (Inr raw) json_parse g = Inl (Prefixed (lit ''Invalid plan format: '') e))
          \<and> (\<exists>e. refinePlan k (Inr raw) json_parse p0 = Inl (Prefixed (lit ''Invalid plan format: '') e))"
    by (auto simp: generatePlan_def refinePlan_def parse_and_check_Some)
  with h show ?thesis by blast
qed

theorem dangling_dependency_rejected_witness:
  "\<not> references_resolve (steps (example_plan [dep_step 1 [99]]))
   \<and> hasCycles (steps (example_plan [dep_step 1 [99]])) = Inl TypeError
   \<and> (\<exists>e. generatePlan (Some (lit ''sk'')) (Inr []) (\<lambda>_. Some (example_plan [dep_step 1 [99]])) []
        = Inl (Prefixed (lit ''Invalid plan format: '') e))"
proof -
  have n: "\<not> references_resolve (steps (example_plan [dep_step 1 [99]]))"
    by (simp add: references_resolve_def example_plan_def dep_step_def mk_step_def)
  have k: "truthy_key (Some (lit ''sk''))" by (simp add: truthy_key_def lit_def)
  have e: "hasCycles (steps (example_plan [dep_step 1 [99]])) = Inl TypeError"
    by (simp add: example_plan_def hasCycles_dangling_example)
  from dangling_dependency_rejected[OF n, of "Some (lit ''sk'')" "\<lambda>_. Some (example_plan [dep_step 1 [99]])"
      "[]" "[]" "example_plan []"] k n e
  show ?thesis by simp
qed

text \<open>
  Claim C10 as stated fails: in the plan 1->[1, 99] the identifier 99 names no step,
  yet \<open>hasCycles\<close> returns the boolean \<^verbatim>\<open>true\<close>: the self-loop is seen before
  \<^verbatim>\<open>graph[99]\<close> is iterated.
\<close>

theorem dangling_dependency_cycle_first:
  "\<not> references_resolve [dep_step 1 [1, 99]] \<and> hasCycles [dep_step 1 [1, 99]] = Inr True"
  by (simp add: hasCycles_self_loop_example) (simp add: references_resolve_def dep_step_def mk_step_def)

section \<open>Retrying a provider request\<close>

subsection \<open>The Mistral client\<close>

text \<open>
  The policy parameters. The client's constructor fixes them; with these values every
  delay below is an integer that a double represents exactly, so real arithmetic
  computes what the code computes.
\<close>

record RetryConfig =
  maxRetries :: nat
  baseDelay :: real
  maxDelay :: real
  backoffFactor :: real

definition mistral_retryConfig :: RetryConfig where
  "mistral_retryConfig = \<lparr> maxRetries = 5, baseDelay = 2000, maxDelay = 30000, backoffFactor = 2 \<rparr>"

text \<open>
  The \<^verbatim>\<open>catch\<close> block of \<^verbatim>\<open>makeRequest\<close>: what it does with the error of attempt
  \<open>attempt\<close>. \<open>Sleep d\<close> waits \<open>d\<close> milliseconds and goes to the next iteration, \<open>NoSleep\<close>
  goes to the next iteration at once (the generic case on the last attempt), \<open>Rethrow\<close>
  is \<^verbatim>\<open>throw error\<close>. The guard \<^verbatim>\<open>status && status < 500\<close> is false for a missing status
  and for the status 0.
\<close>

datatype reaction = Sleep real | NoSleep | Rethrow

definition generic_retry :: "RetryConfig \<Rightarrow> nat \<Rightarrow> reaction" where
  "generic_retry c attempt =
     (if attempt < maxRetries c
      then Sleep (min (baseDelay c * backoffFactor c ^ attempt) (maxDelay c))
      else NoSleep)"

definition on_failure :: "RetryConfig \<Rightarrow> nat \<Rightarrow> error \<Rightarrow> reaction" where
  "on_failure c attempt err =
     (case err of
        AxiosError status \<Rightarrow>
          if status = Some 429 then
            Sleep (min (baseDelay c * backoffFactor c ^ attempt * 3) (maxDelay c))
          else if status = Some 402 then
            Sleep (min (baseDelay c * backoffFactor c ^ attempt * 2) (maxDelay c))
          else if status = Some 503 \<or> status = Some 502 then
            Sleep (min (baseDelay c * backoffFactor c ^ attempt) (maxDelay c / 2))
          else if (case status of None \<Rightarrow> False | Some s \<Rightarrow> s \<noteq> 0 \<and> s < 500) then Rethrow
          else generic_retry c attempt
      | _ \<Rightarrow> generic_retry c attempt)"

text \<open>
  A run of a retry loop: what the call returns or throws, the delays slept in order, and
  the number of HTTP calls made. \<open>post n\<close> is the outcome of the call made at attempt
  \<open>n\<close>.
\<close>

record 'r run =
  outcome :: "error + 'r"
  sleeps :: "real list"
  posts :: nat

function makeRequest_loop ::
  "RetryConfig \<Rightarrow> (nat \<Rightarrow> error + 'r) \<Rightarrow> nat \<Rightarrow> error option \<Rightarrow> real list \<Rightarrow> 'r run"
where
  "makeRequest_loop c post attempt lastError slept =
     (if attempt \<le> maxRetries c then
        (case post attempt of
           Inr response \<Rightarrow> \<lparr> outcome = Inr response, sleeps = slept, posts = Suc attempt \<rparr>
         | Inl err \<Rightarrow>
             (case on_failure c attempt err of
                Rethrow \<Rightarrow> \<lparr> outcome = Inl err, sleeps = slept, posts = Suc attempt \<rparr>
              | Sleep d \<Rightarrow> makeRequest_loop c post (Suc attempt) (Some err) (slept @ [d])
              | NoSleep \<Rightarrow> makeRequest_loop c post (Suc attempt) (Some err) slept))
      else \<lparr> outcome = Inl (case lastError of
                               Some e \<Rightarrow> e
                             | None \<Rightarrow> Error (lit ''Max retries exceeded'')),
             sleeps = slept, posts = attempt \<rparr>)"
  by pat_completeness auto
termination
  by (relation "measure (\<lambda>(c, post, attempt, lastError, slept). Suc (maxRetries c) - attempt)") auto

declare makeRequest_loop.simps [simp del]

definition makeRequest :: "RetryConfig \<Rightarrow> (nat \<Rightarrow> error + 'r) \<Rightarrow> 'r run" where
  "makeRequest c post = makeRequest_loop c post 0 None []"





subsection \<open>The OpenAI client\<close>

text \<open>
  \<^verbatim>\<open>LLMClient.chat\<close>. \<open>status_of\<close> is \<^verbatim>\<open>err.status\<close>; \<open>create n\<close> is the outcome of the
  \<open>n\<close>-th call of \<^verbatim>\<open>chat.completions.create\<close>, the content of the first choice or the
  error thrown; \<^verbatim>\<open>content || ''\<close> turns a missing content into the empty string. The
  file holds the loop twice, with 5 attempts from 1000 ms and with 3 attempts from
  5000 ms; \<open>chat\<close> is the first.
\<close>

definition status_of :: "error \<Rightarrow> nat option" where
  "status_of e = (case e of APIError st \<Rightarrow> st | _ \<Rightarrow> None)"

function chat_loop ::
  "nat \<Rightarrow> (nat \<Rightarrow> error + jsstring option) \<Rightarrow> nat \<Rightarrow> real \<Rightarrow> real list \<Rightarrow> jsstring run"
where
  "chat_loop maxAttempts create attempt delay slept =
     (if attempt < maxAttempts then
        (case create attempt of
           Inr content \<Rightarrow>
             \<lparr> outcome = Inr (case content of None \<Rightarrow> [] | Some s \<Rightarrow> s),
               sleeps = slept, posts = Suc attempt \<rparr>
         | Inl err \<Rightarrow>
             if status_of err = Some 429 then
               chat_loop maxAttempts create (Suc attempt) (delay * 2) (slept @ [delay])
             else if status_of err = Some 401 then
               \<lparr> outcome = Inl (Error (lit ''Unauthorized: Invalid API key'')),
                 sleeps = slept, posts = Suc attempt \<rparr>
             else \<lparr> outcome = Inl err, sleeps = slept, posts = Suc attempt \<rparr>)
      else \<lparr> outcome = Inl (Error (lit ''Too many requests, please try again later.'')),
             sleeps = slept, posts = attempt \<rparr>)"
  by pat_completeness auto
termination
  by (relation "measure (\<lambda>(m, create, attempt, delay, slept). m - attempt)") auto

declare chat_loop.simps [simp del]

definition chat :: "jsstring option \<Rightarrow> (nat \<Rightarrow> error + jsstring option) \<Rightarrow> jsstring run" where
  "chat apiKey create =
     (if \<not> truthy_key apiKey
      then \<lparr> outcome = Inl (Error (lit ''API key not found'')), sleeps = [], posts = 0 \<rparr>
      else chat_loop 5 create 0 1000 [])"

subsection \<open>The backoff delay\<close>







subsection \<open>Attempts and the error thrown\<close>



















lemma run_always_429:
  "makeRequest mistral_retryConfig (\<lambda>n. Inl (AxiosError (Some 429)) :: error + unit)
     = \<lparr> outcome = Inl (AxiosError (Some 429)),
         sleeps = [6000, 12000, 24000, 30000, 30000, 30000], posts = 6 \<rparr>"
  by (simp add: makeRequest_def makeRequest_loop.simps mistral_retryConfig_def on_failure_def)




section \<open>The Mistral client: from model text to a plan\<close>

subsection \<open>The text handed to the parser\<close>

text \<open>
  The white space of \<^verbatim>\<open>String.prototype.trim\<close> and of the class \<^verbatim>\<open>\s\<close>: the code units
  of the language's white space and line terminators.
\<close>

definition is_space :: "nat \<Rightarrow> bool" where
  "is_space c =
     (c \<in> {0x09, 0x0A, 0x0B, 0x0C, 0x0D, 0x20, 0xA0, 0x1680, 0x2028, 0x2029, 0x202F, 0x205F,
            0x3000, 0xFEFF}
      \<or> (0x2000 \<le> c \<and> c \<le> 0x200A))"

definition drop_trailing_space :: "jsstring \<Rightarrow> jsstring" where
  "drop_trailing_space s = rev (dropWhile is_space (rev s))"

definition trim :: "jsstring \<Rightarrow> jsstring" where
  "trim s = drop_trailing_space (dropWhile is_space s)"

text \<open>
  \<^verbatim>\<open>s.replace(/^```json\s*/, '')\<close> and \<^verbatim>\<open>s.replace(/^```\s*/, '')\<close>: the opening fence and
  all white space after it. \<^verbatim>\<open>s.replace(/\s*```$/, '')\<close>: the pattern matches only when
  the text ends with the fence, and the leftmost match starts at the white space that
  runs up to it.
\<close>

definition strip_opening :: "jsstring \<Rightarrow> jsstring \<Rightarrow> jsstring" where
  "strip_opening p s = (if prefix p s then dropWhile is_space (drop (length p) s) else s)"

definition strip_closing_fence :: "jsstring \<Rightarrow> jsstring" where
  "strip_closing_fence s =
     (if suffix (lit ''```'') s then drop_trailing_space (take (length s - 3) s) else s)"

text \<open>
  \<^verbatim>\<open>s.match(/\{[\s\S]*?\}(?=\s*$)/)\<close>: a closing brace followed by white space only, up to
  the end of the text, can only be the last closing brace, so the match, when there is
  one, runs from the first opening brace to the last non-space code unit.
\<close>

definition json_match :: "jsstring \<Rightarrow> jsstring option" where
  "json_match s =
     (let rest = dropWhile (\<lambda>c. c \<noteq> 0x7B) s;
          m = drop_trailing_space rest
      in if 2 \<le> length m \<and> last m = 0x7D then Some m else None)"

text \<open>
  The clean-up: \<^verbatim>\<open>/[\x00-\x1F\x7F]/g\<close> removed, then four global replacements of a
  two-unit pattern. \<open>replace_pair a b rep\<close> replaces, from left to right and without
  overlap, each occurrence of \<open>a\<close> followed by \<open>b\<close> by \<open>rep\<close>. In the source the first
  three replace backslash-n, backslash-r and backslash-t by themselves; the last one
  replaces two backslashes by one (0x5C is the backslash).
\<close>

definition is_control :: "nat \<Rightarrow> bool" where
  "is_control c = (c \<le> 0x1F \<or> c = 0x7F)"

fun replace_pair :: "nat \<Rightarrow> nat \<Rightarrow> jsstring \<Rightarrow> jsstring \<Rightarrow> jsstring" where
  "replace_pair a b rep (x # y # rest) =
     (if x = a \<and> y = b then rep @ replace_pair a b rep rest
      else x # replace_pair a b rep (y # rest))"
| "replace_pair a b rep s = s"

definition clean_control :: "jsstring \<Rightarrow> jsstring" where
  "clean_control s =
     replace_pair 0x5C 0x5C [0x5C]
       (replace_pair 0x5C 0x74 [0x5C, 0x74]
         (replace_pair 0x5C 0x72 [0x5C, 0x72]
           (replace_pair 0x5C 0x6E [0x5C, 0x6E]
             (filter (\<lambda>c. \<not> is_control c) s))))"

text \<open>The first half of \<^verbatim>\<open>parseAndValidatePlan\<close>: the text handed to \<^verbatim>\<open>JSON.parse\<close>.\<close>

definition sanitize :: "jsstring \<Rightarrow> jsstring" where
  "sanitize content =
     (let t = trim content;
          unfenced =
            (if prefix (lit ''```json'') t
               then strip_closing_fence (strip_opening (lit ''```json'') t)
             else if prefix (lit ''```'') t
               then strip_closing_fence (strip_opening (lit ''```'') t)
             else t);
          candidate = (case json_match unfenced of Some m \<Rightarrow> m | None \<Rightarrow> unfenced)
      in clean_control candidate)"

text \<open>The fenced model output of the specification's round-trip example.\<close>

definition fenced_example :: jsstring where
  "fenced_example =
     lit ''```json\<newline>{\"title\":\"x\",\"description\":\"y\",\"tasks\":[]}\<newline>```''"


lemma sanitize_fenced_example:
  "sanitize fenced_example = lit ''{\"title\":\"x\",\"description\":\"y\",\"tasks\":[]}''"
  by (simp add: sanitize_def fenced_example_def lit_def trim_def drop_trailing_space_def is_space_def
        strip_opening_def strip_closing_fence_def json_match_def clean_control_def is_control_def
        Let_def suffix_def)















subsection \<open>What the clean-up keeps and what it changes\<close>





subsection \<open>Parsed values and plans\<close>

text \<open>
  What \<^verbatim>\<open>JSON.parse\<close> returns. An object lists its properties, each key once.
  \<open>truthy\<close> is the language's truthiness, \<open>field v k\<close> is \<^verbatim>\<open>v.k\<close> for a value \<open>v\<close> other
  than \<^verbatim>\<open>null\<close> and a key that is not a built-in property (\<open>None\<close> is \<^verbatim>\<open>undefined\<close>),
  and \<open>or_else v d\<close> is \<^verbatim>\<open>v || d\<close>.
\<close>

datatype json =
    JNull
  | JBool bool
  | JNumber real
  | JString jsstring
  | JArray "json list"
  | JObject "(jsstring \<times> json) list"

fun truthy :: "json \<Rightarrow> bool" where
  "truthy JNull = False"
| "truthy (JBool b) = b"
| "truthy (JNumber x) = (x \<noteq> 0)"
| "truthy (JString s) = (s \<noteq> [])"
| "truthy (JArray xs) = True"
| "truthy (JObject kvs) = True"

definition field :: "json \<Rightarrow> string \<Rightarrow> json option" where
  "field v k = (case v of JObject kvs \<Rightarrow> map_of kvs (lit k) | _ \<Rightarrow> None)"

definition or_else :: "json option \<Rightarrow> json \<Rightarrow> json" where
  "or_else v d = (case v of None \<Rightarrow> d | Some x \<Rightarrow> if truthy x then x else d)"

text \<open>The decimal digits of a natural number, as a template literal prints it.\<close>

function decimal :: "nat \<Rightarrow> jsstring" where
  "decimal n = (if n < 10 then [48 + n] else decimal (n div 10) @ [48 + n mod 10])"
  by pat_completeness auto
termination
  by (relation "measure (\<lambda>n. n)") auto

declare decimal.simps [simp del]

text \<open>
  What one call reads from the runtime: \<^verbatim>\<open>Date.now()\<close>, \<^verbatim>\<open>new Date().toISOString()\<close> and
  \<^verbatim>\<open>Math.random().toString(36)\<close>. The clock is taken not to advance during one
  synchronous call of \<^verbatim>\<open>parseAndValidatePlan\<close> or \<^verbatim>\<open>getFallbackPlan\<close>.
\<close>

record env =
  date_now :: nat
  iso_now :: jsstring
  random36 :: jsstring

text \<open>
  The fields that the code copies from the parsed value without checking their type hold
  a parsed value.
\<close>

datatype PlanStatus = Draft | Active | Completed | Archived

record Task =
  t_id :: jsstring
  t_title :: json
  t_description :: json
  t_status :: json
  t_priority :: json
  t_estimatedDuration :: json
  t_dependencies :: json
  t_createdAt :: jsstring
  t_updatedAt :: jsstring

record LayrPlan =
  p_id :: jsstring
  p_title :: json
  p_description :: json
  p_tasks :: "Task list"
  p_status :: PlanStatus
  p_createdAt :: jsstring
  p_updatedAt :: jsstring
  p_metadata :: "json option"

subsection \<open>parseAndValidatePlan\<close>

text \<open>
  The callback of \<^verbatim>\<open>parsed.tasks.map\<close>; reading a property of \<^verbatim>\<open>null\<close> raises a
  \<^verbatim>\<open>TypeError\<close>.
\<close>

definition make_task :: "env \<Rightarrow> nat \<Rightarrow> json \<Rightarrow> error + Task" where
  "make_task e index task =
     (case task of
        JNull \<Rightarrow> Inl TypeError
      | _ \<Rightarrow>
          Inr \<lparr> t_id = lit ''task_'' @ decimal (date_now e) @ lit ''_'' @ decimal index,
                t_title = or_else (field task ''title'') (JString (lit ''Task '' @ decimal (index + 1))),
                t_description = or_else (field task ''description'') (JString []),
                t_status = or_else (field task ''status'') (JString (lit ''todo'')),
                t_priority = or_else (field task ''priority'') (JString (lit ''medium'')),
                t_estimatedDuration =
                  or_else (field task ''estimatedDuration'') (JString (lit ''1 hour'')),
                t_dependencies = or_else (field task ''dependencies'') (JArray []),
                t_createdAt = iso_now e,
                t_updatedAt = iso_now e \<rparr>)"

fun make_tasks :: "env \<Rightarrow> nat \<Rightarrow> json list \<Rightarrow> error + Task list" where
  "make_tasks e index [] = Inr []"
| "make_tasks e index (task # rest) =
     (case make_task e index task of
        Inl err \<Rightarrow> Inl err
      | Inr t \<Rightarrow>
          (case make_tasks e (Suc index) rest of
             Inl err \<Rightarrow> Inl err
           | Inr ts \<Rightarrow> Inr (t # ts)))"

definition invalid_structure :: error where
  "invalid_structure = Error (lit ''Invalid plan structure'')"

text \<open>
  The part of the \<^verbatim>\<open>try\<close> block after \<^verbatim>\<open>JSON.parse\<close>: the check of the required fields and
  the construction of the plan.
\<close>

definition build_plan :: "env \<Rightarrow> json \<Rightarrow> error + LayrPlan" where
  "build_plan e parsed =
     (case parsed of
        JNull \<Rightarrow> Inl TypeError
      | _ \<Rightarrow>
          (case (field parsed ''title'', field parsed ''description'', field parsed ''tasks'') of
             (Some title, Some description, Some (JArray tasks)) \<Rightarrow>
               if truthy title \<and> truthy description then
                 (case make_tasks e 0 tasks of
                    Inl err \<Rightarrow> Inl err
                  | Inr ts \<Rightarrow>
                      Inr \<lparr> p_id = lit ''plan_'' @ decimal (date_now e) @ lit ''_''
                                    @ take 9 (drop 2 (random36 e)),
                            p_title = title,
                            p_description = description,
                            p_tasks = ts,
                            p_status = Draft,
                            p_createdAt = iso_now e,
                            p_updatedAt = iso_now e,
                            p_metadata = None \<rparr>)
               else Inl invalid_structure
           | _ \<Rightarrow> Inl invalid_structure))"

text \<open>
  \<open>json_parse\<close> is the runtime's \<^verbatim>\<open>JSON.parse\<close>; whatever is thrown in the \<^verbatim>\<open>try\<close> block
  is rethrown with the prefix.
\<close>

definition parseAndValidatePlan ::
  "(jsstring \<Rightarrow> error + json) \<Rightarrow> env \<Rightarrow> jsstring \<Rightarrow> error + LayrPlan"
where
  "parseAndValidatePlan json_parse e content =
     (case (case json_parse (sanitize content) of
              Inl err \<Rightarrow> Inl err
            | Inr parsed \<Rightarrow> build_plan e parsed) of
        Inl err \<Rightarrow> Inl (Prefixed (lit ''Failed to parse plan: '') err)
      | Inr p \<Rightarrow> Inr p)"

subsection \<open>The client's operations\<close>



text \<open>
  \<open>post n\<close> is the outcome of the \<open>n\<close>-th \<^verbatim>\<open>axios.post\<close>: the error thrown, or
  \<^verbatim>\<open>response.data.choices[0]?.message?.content\<close>. \<open>generate_attempt\<close> and
  \<open>refine_attempt\<close> are the \<^verbatim>\<open>try\<close> blocks of \<^verbatim>\<open>generatePlan\<close> and \<^verbatim>\<open>refinePlan\<close>; the
  operations themselves add the \<^verbatim>\<open>catch\<close>. \<open>stamp\<close> is the time \<^verbatim>\<open>refinePlan\<close> reads for
  \<^verbatim>\<open>updatedAt\<close>.
\<close>

definition request_content :: "(nat \<Rightarrow> error + jsstring option) \<Rightarrow> error + jsstring" where
  "request_content post =
     (case outcome (makeRequest mistral_retryConfig post) of
        Inl err \<Rightarrow> Inl err
      | Inr content \<Rightarrow>
          (case content of
             None \<Rightarrow> Inl (Error (lit ''No content in response''))
           | Some s \<Rightarrow> if s = [] then Inl (Error (lit ''No content in response'')) else Inr s))"

definition generate_attempt ::
  "(nat \<Rightarrow> error + jsstring option) \<Rightarrow> (jsstring \<Rightarrow> error + json) \<Rightarrow> env \<Rightarrow> error + LayrPlan"
where
  "generate_attempt post json_parse e =
     (case request_content post of
        Inl err \<Rightarrow> Inl err
      | Inr content \<Rightarrow> parseAndValidatePlan json_parse e content)"


definition refine_attempt ::
  "(nat \<Rightarrow> error + jsstring option) \<Rightarrow> (jsstring \<Rightarrow> error + json) \<Rightarrow> env \<Rightarrow> jsstring
     \<Rightarrow> LayrPlan \<Rightarrow> error + LayrPlan"
where
  "refine_attempt post json_parse e stamp plan =
     (case request_content post of
        Inl err \<Rightarrow> Inl err
      | Inr content \<Rightarrow>
          (case parseAndValidatePlan json_parse e content of
             Inl err \<Rightarrow> Inl err
           | Inr refinedPlan \<Rightarrow>
               Inr (refinedPlan \<lparr> p_id := p_id plan, p_createdAt := p_createdAt plan,
                                  p_updatedAt := stamp \<rparr>)))"

definition Mistral_refinePlan ::
  "(nat \<Rightarrow> error + jsstring option) \<Rightarrow> (jsstring \<Rightarrow> error + json) \<Rightarrow> env \<Rightarrow> jsstring
     \<Rightarrow> LayrPlan \<Rightarrow> error + LayrPlan"
where
  "Mistral_refinePlan post json_parse e stamp plan =
     (case refine_attempt post json_parse e stamp plan of
        Inl err \<Rightarrow> Inr plan
      | Inr p \<Rightarrow> Inr p)"



text \<open>Values for the concrete runs below.\<close>

definition example_object :: json where
  "example_object =
     JObject [(lit ''title'', JString (lit ''x'')), (lit ''description'', JString (lit ''y'')),
              (lit ''tasks'', JArray [])]"

definition example_env :: env where
  "example_env = \<lparr> date_now = 1700000000000, iso_now = lit ''2023-11-14T22:13:20.000Z'',
                   random36 = lit ''0.4fzyo82mvyr'' \<rparr>"

subsection \<open>The round trip on fenced output\<close>


definition example_text :: jsstring where
  "example_text = lit ''{\"title\":\"x\",\"description\":\"y\",\"tasks\":[]}''"

lemma sanitize_fenced_example': "sanitize fenced_example = example_text"
  by (simp add: sanitize_fenced_example example_text_def)

lemma build_example: "build_plan e example_object =
     Inr \<lparr> p_id = lit ''plan_'' @ decimal (date_now e) @ lit ''_'' @ take 9 (drop 2 (random36 e)),
           p_title = JString (lit ''x''), p_description = JString (lit ''y''), p_tasks = [],
           p_status = Draft, p_createdAt = iso_now e, p_updatedAt = iso_now e, p_metadata = None \<rparr>"
  by (simp add: build_plan_def example_object_def field_def lit_def)

text \<open>
  Claim C9. On the fenced example the text handed to \<^verbatim>\<open>JSON.parse\<close> is exactly
  \<^verbatim>\<open>{"title":"x","description":"y","tasks":[]}\<close>; with a parser that reads this text as
  the object with title x, description y and no tasks, \<open>parseAndValidatePlan\<close> does not
  fail and returns the plan with that title, that description and no tasks.
\<close>

theorem fenced_round_trip:
  "sanitize fenced_example = example_text
   \<and> (json_parse example_text = Inr example_object \<longrightarrow>
        parseAndValidatePlan json_parse e fenced_example =
          Inr \<lparr> p_id = lit ''plan_'' @ decimal (date_now e) @ lit ''_'' @ take 9 (drop 2 (random36 e)),
                p_title = JString (lit ''x''), p_description = JString (lit ''y''), p_tasks = [],
                p_status = Draft, p_createdAt = iso_now e, p_updatedAt = iso_now e,
                p_metadata = None \<rparr>)"
  by (simp add: parseAndValidatePlan_def sanitize_fenced_example' build_example)

definition example_parser :: "jsstring \<Rightarrow> error + json" where
  "example_parser s = (if s = example_text then Inr example_object else Inl SyntaxError)"

text \<open>The theorem with a parser that knows the example text only.\<close>

theorem fenced_round_trip_witness:
  "example_parser example_text = Inr example_object
   \<and> parseAndValidatePlan example_parser example_env fenced_example =
        Inr \<lparr> p_id = lit ''plan_1700000000000_4fzyo82mv'',
              p_title = JString (lit ''x''), p_description = JString (lit ''y''), p_tasks = [],
              p_status = Draft, p_createdAt = lit ''2023-11-14T22:13:20.000Z'',
              p_updatedAt = lit ''2023-11-14T22:13:20.000Z'', p_metadata = None \<rparr>"
proof -
  have h: "example_parser example_text = Inr example_object" by (simp add: example_parser_def)
  have d: "decimal 1700000000000 = lit ''1700000000000''" by (simp add: decimal.simps lit_def)
  from fenced_round_trip[of example_parser example_env] h d show ?thesis
    by (simp add: example_env_def lit_def)
qed

subsection \<open>Failures inside the client\<close>

lemma build_plan_fresh:
  "build_plan e v = Inr r \<Longrightarrow> p_status r = Draft \<and> p_metadata r = None"
  by (auto simp: build_plan_def split: json.splits option.splits if_splits sum.splits)

lemma parseAndValidatePlan_fresh:
  "parseAndValidatePlan json_parse e c = Inr r \<Longrightarrow> p_status r = Draft \<and> p_metadata r = None"
  by (auto simp: parseAndValidatePlan_def split: sum.splits dest: build_plan_fresh)

lemma generate_attempt_cases:
  "generate_attempt post json_parse e = Inl err \<longleftrightarrow>
     outcome (makeRequest mistral_retryConfig post) = Inl err
     \<or> (\<exists>content. outcome (makeRequest mistral_retryConfig post) = Inr content
           \<and> (content = None \<or> content = Some [])
           \<and> err = Error (lit ''No content in response''))
     \<or> (\<exists>c cause. request_content post = Inr c
           \<and> (json_parse (sanitize c) = Inl cause
                \<or> (\<exists>v. json_parse (sanitize c) = Inr v \<and> build_plan e v = Inl cause))
           \<and> err = Prefixed (lit ''Failed to parse plan: '') cause)"
  by (auto simp: generate_attempt_def request_content_def parseAndValidatePlan_def
           split: sum.splits option.splits if_splits)




definition active_plan :: LayrPlan where
  "active_plan =
     \<lparr> p_id = lit ''plan_1_abc'', p_title = JString (lit ''Ship it''),
       p_description = JString (lit ''Release''), p_tasks = [], p_status = Active,
       p_createdAt = lit ''2023-01-01T00:00:00.000Z'',
       p_updatedAt = lit ''2023-01-02T00:00:00.000Z'', p_metadata = None \<rparr>"



subsection \<open>What refinement keeps\<close>

text \<open>
  Claim C7 (as amended). \<open>refinePlan\<close> always returns a plan with the identifier and the
  creation time of the plan it was given. When the refinement succeeds, the title, the
  description and the tasks are those of the reply, \<^verbatim>\<open>updatedAt\<close> is the current time, the
  status is reset to \<^verbatim>\<open>draft\<close> and the metadata is dropped; otherwise the plan is
  returned as it was given.
\<close>

theorem refinePlan_keeps_identity:
  "\<exists>q. Mistral_refinePlan post json_parse e stamp plan = Inr q
       \<and> p_id q = p_id plan \<and> p_createdAt q = p_createdAt plan
       \<and> (\<forall>c r. request_content post = Inr c \<and> parseAndValidatePlan json_parse e c = Inr r \<longrightarrow>
             q = \<lparr> p_id = p_id plan, p_title = p_title r, p_description = p_description r,
                   p_tasks = p_tasks r, p_status = Draft, p_createdAt = p_createdAt plan,
                   p_updatedAt = stamp, p_metadata = None \<rparr>)
       \<and> (refine_attempt post json_parse e stamp plan = Inr q \<or> q = plan)"
proof (cases "refine_attempt post json_parse e stamp plan")
  case (Inl err)
  then have "Mistral_refinePlan post json_parse e stamp plan = Inr plan"
    by (simp add: Mistral_refinePlan_def)
  moreover from Inl have "\<forall>c r. \<not> (request_content post = Inr c \<and> parseAndValidatePlan json_parse e c = Inr r)"
    by (auto simp: refine_attempt_def)
  ultimately show ?thesis by auto
next
  case (Inr q)
  then have m: "Mistral_refinePlan post json_parse e stamp plan = Inr q"
    by (simp add: Mistral_refinePlan_def)
  from Inr obtain c r where c: "request_content post = Inr c"
    and r: "parseAndValidatePlan json_parse e c = Inr r"
    and q: "q = r \<lparr> p_id := p_id plan, p_createdAt := p_createdAt plan, p_updatedAt := stamp \<rparr>"
    by (auto simp: refine_attempt_def split: sum.splits)
  from parseAndValidatePlan_fresh[OF r] q
  have "q = \<lparr> p_id = p_id plan, p_title = p_title r, p_description = p_description r,
                   p_tasks = p_tasks r, p_status = Draft, p_createdAt = p_createdAt plan,
                   p_updatedAt = stamp, p_metadata = None \<rparr>" by simp
  with m c r q Inr show ?thesis by auto
qed

definition answers_example :: "nat \<Rightarrow> error + jsstring option" where
  "answers_example n = Inr (Some fenced_example)"

lemma run_answers_example:
  "makeRequest mistral_retryConfig answers_example
     = \<lparr> outcome = Inr (Some fenced_example), sleeps = [], posts = 1 \<rparr>"
  by (simp add: makeRequest_def makeRequest_loop.simps answers_example_def)

lemma fenced_example_nonempty: "fenced_example \<noteq> []"
  by (simp add: fenced_example_def lit_def)

lemma refine_example:
  "Mistral_refinePlan answers_example example_parser example_env (lit ''2024-05-05T10:00:00.000Z'')
       active_plan
     = Inr \<lparr> p_id = lit ''plan_1_abc'', p_title = JString (lit ''x''),
             p_description = JString (lit ''y''), p_tasks = [], p_status = Draft,
             p_createdAt = lit ''2023-01-01T00:00:00.000Z'',
             p_updatedAt = lit ''2024-05-05T10:00:00.000Z'', p_metadata = None \<rparr>"
  by (simp add: Mistral_refinePlan_def refine_attempt_def request_content_def run_answers_example
        fenced_example_nonempty parseAndValidatePlan_def sanitize_fenced_example' example_parser_def
        build_example active_plan_def)

text \<open>The theorem on a successful refinement of an active plan.\<close>

theorem refinePlan_keeps_identity_witness:
  "\<exists>q. Mistral_refinePlan answers_example example_parser example_env
          (lit ''2024-05-05T10:00:00.000Z'') active_plan = Inr q
       \<and> p_id q = lit ''plan_1_abc'' \<and> p_createdAt q = lit ''2023-01-01T00:00:00.000Z''
       \<and> p_updatedAt q = lit ''2024-05-05T10:00:00.000Z''"
  using refinePlan_keeps_identity[of answers_example example_parser example_env
      "lit ''2024-05-05T10:00:00.000Z''" active_plan]
  by (simp add: refine_example)

text \<open>
  Claim C7 as stated fails: beside \<^verbatim>\<open>updatedAt\<close>, the title, the description and the tasks,
  the status differs: the plan given is active, the plan returned is a draft.
\<close>

theorem refinePlan_resets_status:
  "Mistral_refinePlan answers_example example_parser example_env (lit ''2024-05-05T10:00:00.000Z'')
       active_plan
     = Inr \<lparr> p_id = lit ''plan_1_abc'', p_title = JString (lit ''x''),
             p_description = JString (lit ''y''), p_tasks = [], p_status = Draft,
             p_createdAt = lit ''2023-01-01T00:00:00.000Z'',
             p_updatedAt = lit ''2024-05-05T10:00:00.000Z'', p_metadata = None \<rparr>
   \<and> p_status active_plan = Active"
  by (simp add: refine_example) (simp add: active_plan_def)

section \<open>The orchestrator\<close>

text \<open>
  \<^verbatim>\<open>LayerOrchestrator.generatePlan\<close>. The clients are parameters (\<open>None\<close> when the API
  key is not in the environment); the stored session is a parameter, and the session
  returned is the one written back (writing is taken to succeed). \<open>message_of\<close> and
  \<open>string_of\<close> are the runtime's \<^verbatim>\<open>error.message\<close> and the conversion of a value in a
  template literal; the three time stamps are the three readings of the clock.
\<close>

datatype Role = User | Assistant | System

record ConversationMessage =
  role :: Role
  content :: jsstring
  timestamp :: jsstring





























end
